theory Spec2Isabelle
  imports Complex_Main "HOL-Library.Word"
begin

section \<open>Strings\<close>

text \<open>
  A string of the program is a sequence of 16-bit code units: \<open>length\<close>, \<open>slice\<close>,
  \<open>split("")\<close> and indexing all count code units. The functions that never look inside
  a unit (slicing, the chunk loop, the comparison of two units) are written for any
  element type; the colour table and the copy handler, which name particular
  characters, use \<open>js_string\<close>.
\<close>

type_synonym code_unit = "16 word"
type_synonym js_string = "code_unit list"

definition str :: "string \<Rightarrow> js_string" where
  "str s = map of_char s"

text \<open>
  \<open>s.slice(start, stop)\<close> for arguments that are not negative (the loop only passes
  \<open>i\<close> and \<open>i + chunkSize\<close>): both positions are clamped to the length and the units
  between them are returned; nothing is returned when \<open>stop\<close> is not beyond \<open>start\<close>.
\<close>

definition slice_str :: "'a list \<Rightarrow> nat \<Rightarrow> nat \<Rightarrow> 'a list" where
  "slice_str s start stop =
     (let len = length s; from = min start len; to = min stop len
      in take (to - from) (drop from s))"

text \<open>\<open>s[i]\<close>: the one-unit string at position \<open>i\<close>, \<open>undefined\<close> (here \<open>None\<close>) out of range.\<close>

definition at_index :: "'a list \<Rightarrow> nat \<Rightarrow> 'a list option" where
  "at_index s i = (if i < length s then Some [s ! i] else None)"

text \<open>\<open>s.split("")\<close>: the one-unit strings of \<open>s\<close>, in order.\<close>

definition split_units :: "'a list \<Rightarrow> 'a list list" where
  "split_units s = map (\<lambda>c. [c]) s"

section \<open>Chunk size\<close>

text \<open>
  \<open>boxRef.current?.clientWidth || 0\<close>: the reference may hold no element (\<open>None\<close>);
  \<open>clientWidth\<close> is a non-negative integer number of pixels, and \<open>||\<close> replaces the
  falsy value 0 by 0.
\<close>

definition measured_width :: "nat option \<Rightarrow> nat" where
  "measured_width current =
     (case current of None \<Rightarrow> 0 | Some clientWidth \<Rightarrow> if clientWidth \<noteq> 0 then clientWidth else 0)"

text \<open>
  \<open>Math.floor(width / 19)\<close> on a non-negative integer width. Widths are far below
  \<open>2^53\<close>, where the floating-point quotient of two integers rounds to the integer
  quotient after \<open>Math.floor\<close>, so the model divides integers.
\<close>

definition newChunkSize :: "nat \<Rightarrow> nat" where
  "newChunkSize width = width div 19"

text \<open>The updater handed to \<open>setChunkSize\<close>: \<open>(prev) => (prev !== newChunkSize ? newChunkSize : prev)\<close>.\<close>

definition setChunkSize_updater :: "nat \<Rightarrow> nat \<Rightarrow> nat" where
  "setChunkSize_updater new prev = (if prev \<noteq> new then new else prev)"

text \<open>\<open>updateChunkSize\<close>: from the reference and the current state to the next state.\<close>

definition updateChunkSize :: "nat option \<Rightarrow> nat \<Rightarrow> nat" where
  "updateChunkSize current prev =
     (let width = measured_width current;
          new = newChunkSize width
      in setChunkSize_updater new prev)"

text \<open>\<open>useState(20)\<close>.\<close>

definition initial_chunkSize :: nat where
  "initial_chunkSize = 20"

section \<open>Partition into chunks\<close>

text \<open>
  \<open>for (let i = 0; i < seq1.length; i += chunkSize) chunks.push([...])\<close>.
  The loop need not end, so it is a partial function: \<open>None\<close> is a run that never
  leaves the loop.
\<close>

partial_function (option) chunks_loop ::
  "'a list \<Rightarrow> 'a list \<Rightarrow> nat \<Rightarrow> nat \<Rightarrow> ('a list \<times> 'a list) list \<Rightarrow> ('a list \<times> 'a list) list option"
where
  "chunks_loop seq1 seq2 chunkSize i chunks =
     (if i < length seq1
      then chunks_loop seq1 seq2 chunkSize (i + chunkSize)
             (chunks @ [(slice_str seq1 i (i + chunkSize), slice_str seq2 i (i + chunkSize))])
      else Some chunks)"

definition chunks :: "'a list \<Rightarrow> 'a list \<Rightarrow> nat \<Rightarrow> ('a list \<times> 'a list) list option" where
  "chunks seq1 seq2 chunkSize = chunks_loop seq1 seq2 chunkSize 0 []"

text \<open>
  The start positions the loop visits from \<open>i\<close> on, for a positive step; a proof device,
  total by construction, used to describe the loop's result.
\<close>

function starts :: "nat \<Rightarrow> nat \<Rightarrow> nat \<Rightarrow> nat list" where
  "starts len n i = (if 0 < n \<and> i < len then i # starts len n (i + n) else [])"
  by pat_completeness auto
termination
  by (relation "measure (\<lambda>(len, n, i). len - i)") auto

declare starts.simps [simp del]

declare chunks_loop.simps [code]

section \<open>Colours\<close>

text \<open>
  \<open>COLOR_MAP\<close>, in the order of the source. A key is a property name, that is a string;
  the lookup \<open>COLOR_MAP[char]\<close> is only made with one-unit strings, and no inherited
  property of a plain object has a one-unit name, so the table alone decides it.
\<close>

definition COLOR_MAP :: "(js_string \<times> string) list" where
  "COLOR_MAP =
     [(str ''C'', ''#FFEA00''),
      (str ''G'', ''#C4C4C4''),
      (str ''D'', ''#FC9CAC''),
      (str ''E'', ''#FC9CAC''),
      (str ''K'', ''#BB99FF''),
      (str ''R'', ''#BB99FF''),
      (str ''S'', ''#80BFFF''),
      (str ''T'', ''#80BFFF''),
      (str ''H'', ''#80BFFF''),
      (str ''Q'', ''#80BFFF''),
      (str ''N'', ''#80BFFF''),
      (str ''A'', ''#67E4A6''),
      (str ''I'', ''#67E4A6''),
      (str ''L'', ''#67E4A6''),
      (str ''M'', ''#67E4A6''),
      (str ''F'', ''#67E4A6''),
      (str ''W'', ''#67E4A6''),
      (str ''Y'', ''#67E4A6''),
      (str ''V'', ''#67E4A6''),
      (str ''P'', ''#67E4A6'')]"

text \<open>
  \<open>COLOR_MAP[char] || "transparent"\<close>: a missing key gives \<open>undefined\<close>, which is falsy,
  as the empty string would be.
\<close>

definition seq1_backgroundColor :: "js_string \<Rightarrow> string" where
  "seq1_backgroundColor char =
     (case map_of COLOR_MAP char of
        None \<Rightarrow> ''transparent''
      | Some color \<Rightarrow> if color \<noteq> [] then color else ''transparent'')"

text \<open>\<open>s2[i] !== s1[i] ? "#ffb6b6" : "transparent"\<close>, on the two strings of one chunk.\<close>

definition seq2_backgroundColor :: "'a list \<Rightarrow> 'a list \<Rightarrow> nat \<Rightarrow> string" where
  "seq2_backgroundColor s1 s2 i =
     (if at_index s2 i \<noteq> at_index s1 i then ''#ffb6b6'' else ''transparent'')"

text \<open>
  What is drawn for one chunk: the background of every unit of \<open>s1\<close>, then of every unit
  of \<open>s2\<close>; the second \<open>map\<close> of the source runs over \<open>s2.split("")\<close> with the index.
\<close>

definition render_chunk :: "js_string \<times> js_string \<Rightarrow> string list \<times> string list" where
  "render_chunk c =
     (case c of (s1, s2) \<Rightarrow>
        (map seq1_backgroundColor (split_units s1),
         map (\<lambda>i. seq2_backgroundColor s1 s2 i) [0..<length (split_units s2)]))"

text \<open>
  The specification's reading of the second row, on the whole strings:
  the flag at position \<open>i\<close> and the colour it selects.
\<close>

definition spec_MismatchFlag :: "'a list \<Rightarrow> 'a list \<Rightarrow> nat \<Rightarrow> bool" where
  "spec_MismatchFlag seq1 seq2 i = (seq2 ! i \<noteq> seq1 ! i)"

definition spec_colorForSeq2Char :: "nat \<Rightarrow> 'a list \<Rightarrow> 'a list \<Rightarrow> string" where
  "spec_colorForSeq2Char index seq1 seq2 =
     (if spec_MismatchFlag seq1 seq2 index then ''#ffb6b6'' else ''transparent'')"

section \<open>Copying the selection\<close>

datatype effect = ClipboardWriteText js_string | OnCopy

definition newline :: code_unit where
  "newline = 0x0A"

text \<open>\<open>.replace(/\n/g, "")\<close>: every line feed is removed, everything else stays in place.\<close>

definition replace_newlines :: "js_string \<Rightarrow> js_string" where
  "replace_newlines s = filter (\<lambda>c. c \<noteq> newline) s"

text \<open>
  \<open>handleMouseUp\<close>. The argument is the text of \<open>window.getSelection()\<close>, \<open>None\<close> when
  there is no selection object (then \<open>?.\<close> yields \<open>undefined\<close>). The result lists the
  calls made, in order: \<open>navigator.clipboard.writeText\<close> and \<open>onCopy\<close>.
\<close>

definition handleMouseUp :: "js_string option \<Rightarrow> effect list" where
  "handleMouseUp getSelection =
     (let selection = map_option replace_newlines getSelection
      in case selection of
           None \<Rightarrow> []
         | Some s \<Rightarrow> if s \<noteq> [] then [ClipboardWriteText s, OnCopy] else [])"

text \<open>
  The specification speaks of line-break characters. Read as the line terminators of
  the language, they are the line feed, the carriage return, the line separator and the
  paragraph separator.
\<close>

definition spec_line_break :: "code_unit \<Rightarrow> bool" where
  "spec_line_break c = (c = 0x0A \<or> c = 0x0D \<or> c = 0x2028 \<or> c = 0x2029)"

section \<open>Facts about slicing and the loop\<close>

lemma slice_take_drop: "slice_str s a b = take (b - a) (drop a s)"
proof (cases "a \<le> length s")
  case True
  show ?thesis
  proof (cases "b \<le> length s")
    case True
    with \<open>a \<le> length s\<close> show ?thesis
      by (simp add: slice_str_def Let_def min_absorb1)
  next
    case False
    with \<open>a \<le> length s\<close> show ?thesis
      by (simp add: slice_str_def Let_def min_absorb1 min_absorb2)
  qed
next
  case False
  then show ?thesis
    by (simp add: slice_str_def Let_def)
qed

lemma chunks_loop_starts:
  "0 < n \<Longrightarrow>
   chunks_loop s1 s2 n i acc =
     Some (acc @ map (\<lambda>k. (slice_str s1 k (k + n), slice_str s2 k (k + n))) (starts (length s1) n i))"
proof (induction "length s1" n i arbitrary: acc rule: starts.induct)
  case (1 n i)
  show ?case
  proof (cases "i < length s1")
    case True
    with 1 show ?thesis
      by (subst chunks_loop.simps, subst starts.simps) simp
  next
    case False
    then show ?thesis
      by (subst chunks_loop.simps, subst starts.simps) simp
  qed
qed

lemma chunks_starts:
  "0 < n \<Longrightarrow>
   chunks s1 s2 n =
     Some (map (\<lambda>k. (slice_str s1 k (k + n), slice_str s2 k (k + n))) (starts (length s1) n 0))"
  by (simp add: chunks_def chunks_loop_starts)

lemma chunks_loop_zero_step:
  assumes "i < length s1" shows "chunks_loop s1 s2 0 i acc = None"
proof -
  have "\<not> (n = 0 \<and> i < length s1)" if "chunks_loop s1 s2 n i acc = Some r" for n r
    using that
  proof (rule chunks_loop.raw_induct[where P = "\<lambda>s1 s2 n i acc r. \<not> (n = 0 \<and> i < length s1)", rotated])
    fix f and seq1 seq2 :: "'a list" and chunkSize i chunks y
    assume IH: "\<And>seq1 seq2 chunkSize i chunks y. f seq1 seq2 chunkSize i chunks = Some y \<Longrightarrow> \<not> (chunkSize = 0 \<and> i < length seq1)"
      and step: "(if i < length seq1
      then f seq1 seq2 chunkSize (i + chunkSize)
            (chunks @ [(slice_str seq1 i (i + chunkSize), slice_str seq2 i (i + chunkSize))])
      else Some chunks) = Some y"
    show "\<not> (chunkSize = 0 \<and> i < length seq1)"
    proof
      assume a: "chunkSize = 0 \<and> i < length seq1"
      with step have "f seq1 seq2 chunkSize (i + chunkSize)
            (chunks @ [(slice_str seq1 i (i + chunkSize), slice_str seq2 i (i + chunkSize))]) = Some y"
        by simp
      from IH[OF this] a show False by simp
    qed
  qed
  with assms show ?thesis by (cases "chunks_loop s1 s2 0 i acc") auto
qed

lemma ceiling_div_nat: "0 < n \<Longrightarrow> int ((len + n - 1) div n) = \<lceil>real len / real n\<rceil>"
proof -
  assume n: "0 < n"
  define q where "q = (len + n - 1) div n"
  have lo: "q * n \<le> len + n - 1" unfolding q_def by simp
  have "len + n - 1 < q * n + n" unfolding q_def
    using n by (metis add.commute div_mult_mod_eq mod_less_divisor nat_add_left_cancel_less mult.commute)
  with n have hi: "len \<le> q * n" by simp
  have lo': "len = 0 \<and> q = 0 \<or> (q - 1) * n < len \<and> 0 < q"
  proof (cases "len = 0")
    case True
    with n show ?thesis by (simp add: q_def)
  next
    case False
    with hi n have "0 < q" by (cases q) auto
    moreover from lo \<open>0 < q\<close> n False have "(q - 1) * n < len"
      by (cases q) auto
    ultimately show ?thesis by simp
  qed
  have "\<lceil>real len / real n\<rceil> = int q"
  proof (rule ceiling_unique)
    from hi n have "real len \<le> real (q * n)" by (simp only: of_nat_le_iff)
    with n show "real len / real n \<le> of_int (int q)" by (simp add: field_simps)
    from lo' show "of_int (int q) - 1 < real len / real n"
    proof
      assume "len = 0 \<and> q = 0" then show ?thesis by simp
    next
      assume a: "(q - 1) * n < len \<and> 0 < q"
      then have "real ((q - 1) * n) < real len" by (simp only: of_nat_less_iff)
      moreover from a have "real (q - 1) = real q - 1" by (simp add: of_nat_diff)
      ultimately have "(real q - 1) * real n < real len" by simp
      with n show ?thesis by (simp add: field_simps)
    qed
  qed
  then show ?thesis by (simp add: q_def)
qed

lemma length_starts: "0 < n \<Longrightarrow> length (starts len n i) = (len - i + n - 1) div n"
proof (induction len n i rule: starts.induct)
  case (1 len n i)
  show ?case
  proof (cases "i < len")
    case False
    with \<open>0 < n\<close> show ?thesis by (subst starts.simps) simp
  next
    case True
    with 1 have IH: "length (starts len n (i + n)) = (len - (i + n) + n - 1) div n" by simp
    have "(len - i + n - 1) div n = Suc ((len - (i + n) + n - 1) div n)"
    proof (cases "i + n \<le> len")
      case True
      define m where "m = len - (i + n) + n - 1"
      from True \<open>0 < n\<close> have "len - i + n - 1 = m + n" by (simp add: m_def)
      then have "(len - i + n - 1) div n = (m + n) div n" by (simp only:)
      also have "\<dots> = Suc (m div n)" using \<open>0 < n\<close> by simp
      finally show ?thesis by (simp add: m_def)
    next
      case False
      then have "len - (i + n) + n - 1 = n - 1" by simp
      moreover have "(n - 1) div n = 0" using \<open>0 < n\<close> by simp
      moreover have "(len - i + n - 1) div n = 1"
      proof -
        define r where "r = len - i - 1"
        from False \<open>i < len\<close> have "len - i + n - 1 = r + n" and "r < n" by (simp_all add: r_def)
        have "(len - i + n - 1) div n = (r + n) div n"
          using \<open>len - i + n - 1 = r + n\<close> by (simp only:)
        also have "\<dots> = Suc (r div n)" using \<open>0 < n\<close> by simp
        also have "\<dots> = 1" using \<open>r < n\<close> by simp
        finally show ?thesis .
      qed
      ultimately show ?thesis by simp
    qed
    with IH True \<open>0 < n\<close> show ?thesis by (subst starts.simps) simp
  qed
qed

lemma starts_nth: "0 < n \<Longrightarrow> k < length (starts len n i) \<Longrightarrow> starts len n i ! k = i + k * n"
proof (induction len n i arbitrary: k rule: starts.induct)
  case (1 len n i)
  show ?case
  proof (cases "i < len")
    case False
    with 1(3) show ?thesis by (subst (asm) starts.simps) simp
  next
    case True
    with \<open>0 < n\<close> have eq: "starts len n i = i # starts len n (i + n)" by (subst starts.simps) simp
    show ?thesis
    proof (cases k)
      case 0
      with eq show ?thesis by simp
    next
      case (Suc j)
      with 1(3) eq have "j < length (starts len n (i + n))" by simp
      with 1(1) True \<open>0 < n\<close> have "starts len n (i + n) ! j = i + n + j * n" by simp
      with eq Suc show ?thesis by simp
    qed
  qed
qed

lemma concat_slices:
  "0 < n \<Longrightarrow> length s = len \<Longrightarrow> concat (map (\<lambda>k. slice_str s k (k + n)) (starts len n i)) = drop i s"
proof (induction len n i rule: starts.induct)
  case (1 len n i)
  show ?case
  proof (cases "i < len")
    case True
    with 1 have "concat (map (\<lambda>k. slice_str s k (k + n)) (starts len n (i + n))) = drop (i + n) s" by simp
    moreover have "take n (drop i s) @ drop (i + n) s = drop i s"
      by (metis add.commute append_take_drop_id drop_drop)
    ultimately show ?thesis using True \<open>0 < n\<close>
      by (subst starts.simps) (simp add: slice_take_drop)
  next
    case False
    with 1(3) show ?thesis by (subst starts.simps) simp
  qed
qed


subsection \<open>Arithmetic of the chunk count\<close>

lemma count_cases:
  assumes "0 < n"
  shows "(len + n - 1) div n = (if len mod n = 0 then len div n else Suc (len div n))"
proof -
  obtain m where n: "n = Suc m" using assms by (cases n) auto
  define d where "d = len div n"
  define r where "r = len mod n"
  have len: "len = d * n + r" unfolding r_def d_def by (rule div_mult_mod_eq [symmetric])
  have "r < n" using assms by (simp add: r_def)
  show ?thesis
  proof (cases "r = 0")
    case True
    have "len + n - 1 = d * n + m" using len True n by simp
    then have "(len + n - 1) div n = (d * n + m) div n" by (simp only:)
    also have "\<dots> = d + m div n" using assms by (simp only: div_mult_self3)
    also have "\<dots> = d" using n by simp
    finally show ?thesis using True by (simp add: r_def d_def)
  next
    case False
    then obtain r' where r': "r = Suc r'" by (cases r) auto
    have "len + n - 1 = Suc d * n + r'" using len r' n by simp
    then have "(len + n - 1) div n = (Suc d * n + r') div n" by (simp only:)
    also have "\<dots> = Suc d + r' div n" using assms by (simp only: div_mult_self3)
    also have "\<dots> = Suc d" using \<open>r < n\<close> r' by simp
    finally show ?thesis using False by (simp add: r_def d_def)
  qed
qed

lemma last_chunk_length:
  assumes "0 < (n::nat)" and "0 < (len::nat)"
  shows "len - ((len + n - 1) div n - 1) * n = (if len mod n = 0 then n else len mod n)"
proof -
  define d where "d = len div n"
  define r where "r = len mod n"
  have len: "len = d * n + r" unfolding r_def d_def by (rule div_mult_mod_eq [symmetric])
  have q: "(len + n - 1) div n = (if r = 0 then d else Suc d)"
    unfolding r_def d_def using assms(1) by (rule count_cases)
  show ?thesis
  proof (cases "r = 0")
    case True
    with len assms have "0 < d" by (cases d) auto
    then obtain d' where d': "d = Suc d'" by (cases d) auto
    have "len - (d - 1) * n = n" using len True d' by simp
    moreover from q True have "(len + n - 1) div n = d" by simp
    moreover from True have "len mod n = 0" by (simp add: r_def)
    ultimately show ?thesis by simp
  next
    case False
    have "len - (Suc d - 1) * n = r" using len by simp
    moreover from q False have "(len + n - 1) div n = Suc d" by simp
    moreover from False have "len mod n \<noteq> 0" by (simp add: r_def)
    ultimately show ?thesis by (simp add: r_def)
  qed
qed

lemma full_chunk_fits:
  assumes "0 < n" and "Suc k < (len + n - 1) div n"
  shows "k * n + n \<le> len"
proof -
  have "(len + n - 1) div n \<le> Suc (len div n)"
    by (simp only: count_cases [OF assms(1)] split: if_splits) simp
  with assms(2) have "Suc k \<le> len div n" by simp
  then have "Suc k * n \<le> len div n * n" by (simp only: mult_le_mono1)
  also have "\<dots> \<le> len" by simp
  finally show ?thesis by simp
qed

subsection \<open>The chunks by index\<close>

lemma length_slice: "length (slice_str s a (a + n)) = min n (length s - a)"
  by (simp add: slice_take_drop min.commute)

lemma nth_slice:
  "j < n \<Longrightarrow> a + j < length s \<Longrightarrow> slice_str s a (a + n) ! j = s ! (a + j)"
  by (simp add: slice_take_drop)

lemma chunks_nth:
  assumes "0 < n"
  shows "chunks s1 s2 n = Some (map (\<lambda>k. (slice_str s1 (k * n) (k * n + n), slice_str s2 (k * n) (k * n + n)))
                                [0..<(length s1 + n - 1) div n])"
proof -
  let ?q = "(length s1 + n - 1) div n"
  have len: "length (starts (length s1) n 0) = ?q"
    using length_starts [OF assms, of "length s1" 0] by simp
  have "starts (length s1) n 0 = map (\<lambda>k. k * n) [0..<?q]"
  proof (rule nth_equalityI)
    show "length (starts (length s1) n 0) = length (map (\<lambda>k. k * n) [0..<?q])"
      using len by simp
  next
    fix k assume "k < length (starts (length s1) n 0)"
    then show "starts (length s1) n 0 ! k = map (\<lambda>k. k * n) [0..<?q] ! k"
      using starts_nth [OF assms, of k "length s1" 0] len by simp
  qed
  then show ?thesis
    by (simp add: chunks_starts [OF assms] comp_def)
qed

lemma chunk_index_in_range:
  assumes "0 < (n::nat)" and "i < (len::nat)"
  shows "i div n < (len + n - 1) div n"
proof (cases "len mod n = 0")
  case True
  have "len = len div n * n + len mod n" by (rule div_mult_mod_eq [symmetric])
  with True have "len = len div n * n" by simp
  with assms(2) have "i < len div n * n" by simp
  then have "i div n < len div n" by (rule less_mult_imp_div_less)
  moreover have "(len + n - 1) div n = len div n"
    using count_cases [OF assms(1), of len] True by simp
  ultimately show ?thesis by (simp only:)
next
  case False
  have "i div n \<le> len div n" using assms(2) by (simp add: div_le_mono)
  moreover have "(len + n - 1) div n = Suc (len div n)"
    using count_cases [OF assms(1), of len] False by simp
  ultimately show ?thesis by (simp only: less_Suc_eq_le)
qed

subsection \<open>Integer division and the floor\<close>

lemma floor_div_nat: "int (w div n) = \<lfloor>real w / real n\<rfloor>"
  by (simp add: floor_divide_of_nat_eq)

subsection \<open>The keys of the colour table\<close>

lemma COLOR_MAP_keys:
  "fst ` set COLOR_MAP = set (map (\<lambda>c. str [c]) ''ARNDCEQGHILKMFPSTWYV'')"
  by (simp add: COLOR_MAP_def str_def) blast

section \<open>Verified properties\<close>

subsection \<open>Partitioning\<close>

text \<open>
  C1. For two strings of equal length and a positive chunk size, the loop returns, and
  the first components of its chunks, concatenated in order, are \<open>seq1\<close>; the second
  components, concatenated in order, are \<open>seq2\<close>.
\<close>

theorem partition_roundtrip:
  assumes "0 < chunkSize" and "length seq1 = length seq2"
  shows "\<exists>cs. chunks seq1 seq2 chunkSize = Some cs
              \<and> concat (map fst cs) = seq1 \<and> concat (map snd cs) = seq2"
proof -
  let ?ks = "starts (length seq1) chunkSize 0"
  let ?cs = "map (\<lambda>k. (slice_str seq1 k (k + chunkSize), slice_str seq2 k (k + chunkSize))) ?ks"
  have "chunks seq1 seq2 chunkSize = Some ?cs"
    using assms(1) by (rule chunks_starts)
  moreover have "concat (map fst ?cs) = seq1"
    using concat_slices [OF assms(1) refl, of seq1 0] by (simp add: comp_def)
  moreover have "concat (map snd ?cs) = seq2"
    using concat_slices [OF assms(1) assms(2) [symmetric], of 0] by (simp add: comp_def)
  ultimately show ?thesis by blast
qed

text \<open>The round trip at \<open>"ACDE"\<close>, \<open>"ACDF"\<close> and chunk size 2.\<close>

theorem partition_roundtrip_witness:
  "(0::nat) < 2 \<and> length (str ''ACDE'') = length (str ''ACDF'')
   \<and> (\<exists>cs. chunks (str ''ACDE'') (str ''ACDF'') 2 = Some cs
          \<and> concat (map fst cs) = str ''ACDE'' \<and> concat (map snd cs) = str ''ACDF'')"
  using partition_roundtrip [of 2 "str ''ACDE''" "str ''ACDF''"] by (simp add: str_def)

text \<open>
  C2. For two strings of equal length and a positive chunk size, the loop returns
  \<open>\<lceil>length seq1 / chunkSize\<rceil>\<close> chunks; both strings of a chunk have the same length,
  which is \<open>chunkSize\<close> for every chunk but the last, and for the last the remainder
  \<open>length seq1 mod chunkSize\<close>, or \<open>chunkSize\<close> when the remainder is 0.
\<close>

theorem partition_chunk_count:
  assumes "0 < chunkSize" and "length seq1 = length seq2"
  shows "\<exists>cs. chunks seq1 seq2 chunkSize = Some cs
     \<and> int (length cs) = \<lceil>real (length seq1) / real chunkSize\<rceil>
     \<and> (\<forall>k<length cs.
           length (fst (cs ! k)) = length (snd (cs ! k))
         \<and> length (fst (cs ! k)) =
             (if Suc k < length cs then chunkSize
              else if length seq1 mod chunkSize = 0 then chunkSize
              else length seq1 mod chunkSize))"
proof -
  let ?n = chunkSize
  let ?len = "length seq1"
  let ?q = "(?len + ?n - 1) div ?n"
  let ?cs = "map (\<lambda>k. (slice_str seq1 (k * ?n) (k * ?n + ?n), slice_str seq2 (k * ?n) (k * ?n + ?n))) [0..<?q]"
  have cs: "chunks seq1 seq2 ?n = Some ?cs"
    using assms(1) by (rule chunks_nth)
  have count: "int (length ?cs) = \<lceil>real ?len / real ?n\<rceil>"
    using ceiling_div_nat [OF assms(1), of ?len] by simp
  have each: "length (fst (?cs ! k)) = length (snd (?cs ! k))
         \<and> length (fst (?cs ! k)) =
             (if Suc k < length ?cs then ?n
              else if ?len mod ?n = 0 then ?n else ?len mod ?n)" if k: "k < length ?cs" for k
  proof -
    from k have kq: "k < ?q" by simp
    then have nth: "?cs ! k = (slice_str seq1 (k * ?n) (k * ?n + ?n), slice_str seq2 (k * ?n) (k * ?n + ?n))"
      by simp
    have l1: "length (fst (?cs ! k)) = min ?n (?len - k * ?n)"
      by (simp only: nth fst_conv length_slice)
    have "length (snd (?cs ! k)) = min ?n (length seq2 - k * ?n)"
      by (simp only: nth snd_conv length_slice)
    then have l2: "length (snd (?cs ! k)) = min ?n (?len - k * ?n)"
      by (simp only: assms(2))
    have "min ?n (?len - k * ?n) =
             (if Suc k < ?q then ?n else if ?len mod ?n = 0 then ?n else ?len mod ?n)"
    proof (cases "Suc k < ?q")
      case True
      then have "k * ?n + ?n \<le> ?len" using assms(1) by (rule full_chunk_fits [rotated])
      with True show ?thesis by simp
    next
      case False
      with kq have k_eq: "k = ?q - 1" by simp
      have "0 < ?len"
      proof (rule ccontr)
        assume "\<not> 0 < ?len"
        then have "?q = 0" using assms(1) by simp
        with kq show False by simp
      qed
      from last_chunk_length [OF assms(1) this]
      have last: "?len - k * ?n = (if ?len mod ?n = 0 then ?n else ?len mod ?n)"
        by (simp only: k_eq)
      have "?len mod ?n < ?n" using assms(1) by simp
      then have "min ?n (if ?len mod ?n = 0 then ?n else ?len mod ?n)
           = (if ?len mod ?n = 0 then ?n else ?len mod ?n)" by simp
      with last False show ?thesis by (simp only: if_False)
    qed
    with l1 l2 show ?thesis by (simp only: length_map length_upt diff_zero)
  qed
  from cs count each show ?thesis by blast
qed

text \<open>Five units in chunks of two: three chunks, the last of one unit.\<close>

theorem partition_chunk_count_witness:
  "(0::nat) < 2 \<and> length (str ''ACDEF'') = length (str ''ACDFG'')
   \<and> (\<exists>cs. chunks (str ''ACDEF'') (str ''ACDFG'') 2 = Some cs
     \<and> int (length cs) = \<lceil>real (length (str ''ACDEF'')) / real (2::nat)\<rceil>
     \<and> length cs = 3
     \<and> length (fst (cs ! 0)) = 2 \<and> length (snd (cs ! 0)) = 2
     \<and> length (fst (cs ! 2)) = 1 \<and> length (snd (cs ! 2)) = 1)"
  using partition_chunk_count [of 2 "str ''ACDEF''" "str ''ACDFG''"]
  by (simp add: str_def chunks_def chunks_loop.simps slice_str_def)

text \<open>
  C3. For two strings of equal length, a positive chunk size and a position \<open>i\<close> of the
  strings, position \<open>i\<close> lies in chunk \<open>i div chunkSize\<close> at offset \<open>i mod chunkSize\<close>, and
  the comparison the program makes there, on the two strings of the chunk, gives the
  flag and the colour that the comparison of the whole strings at \<open>i\<close> gives.
\<close>

theorem mismatch_invariant_under_chunking:
  assumes "0 < chunkSize" and "length seq1 = length seq2" and "i < length seq1"
  shows "\<exists>cs. chunks seq1 seq2 chunkSize = Some cs
     \<and> i div chunkSize < length cs
     \<and> i mod chunkSize < length (snd (cs ! (i div chunkSize)))
     \<and> (at_index (snd (cs ! (i div chunkSize))) (i mod chunkSize)
           \<noteq> at_index (fst (cs ! (i div chunkSize))) (i mod chunkSize))
         = spec_MismatchFlag seq1 seq2 i
     \<and> seq2_backgroundColor (fst (cs ! (i div chunkSize))) (snd (cs ! (i div chunkSize))) (i mod chunkSize)
         = spec_colorForSeq2Char i seq1 seq2"
proof -
  let ?n = chunkSize
  let ?k = "i div ?n"
  let ?j = "i mod ?n"
  let ?q = "(length seq1 + ?n - 1) div ?n"
  let ?cs = "map (\<lambda>k. (slice_str seq1 (k * ?n) (k * ?n + ?n), slice_str seq2 (k * ?n) (k * ?n + ?n))) [0..<?q]"
  have cs: "chunks seq1 seq2 ?n = Some ?cs"
    using assms(1) by (rule chunks_nth)
  have kq: "?k < ?q"
    using assms(1) assms(3) by (rule chunk_index_in_range)
  then have k: "?k < length ?cs" by simp
  from kq have nth: "?cs ! ?k = (slice_str seq1 (?k * ?n) (?k * ?n + ?n), slice_str seq2 (?k * ?n) (?k * ?n + ?n))"
    by simp
  have j: "?j < ?n" using assms(1) by simp
  have i: "?k * ?n + ?j = i" by simp
  have in1: "?k * ?n + ?j < length seq1" using assms(3) by (simp only: i)
  have in2: "?k * ?n + ?j < length seq2" using assms(2) assms(3) by (simp only: i)
  have u1: "fst (?cs ! ?k) ! ?j = seq1 ! i"
    using nth_slice [OF j in1] by (simp only: nth fst_conv i)
  have u2: "snd (?cs ! ?k) ! ?j = seq2 ! i"
    using nth_slice [OF j in2] by (simp only: nth snd_conv i)
  have l1: "?j < length (fst (?cs ! ?k))"
    using j in1 by (simp only: nth fst_conv length_slice)
  have l2: "?j < length (snd (?cs ! ?k))"
    using j in2 by (simp only: nth snd_conv length_slice)
  have flag: "(at_index (snd (?cs ! ?k)) ?j \<noteq> at_index (fst (?cs ! ?k)) ?j) = spec_MismatchFlag seq1 seq2 i"
    using l1 l2 u1 u2 by (simp add: at_index_def spec_MismatchFlag_def)
  then have colour: "seq2_backgroundColor (fst (?cs ! ?k)) (snd (?cs ! ?k)) ?j = spec_colorForSeq2Char i seq1 seq2"
    by (simp only: seq2_backgroundColor_def spec_colorForSeq2Char_def)
  from cs k l2 flag colour show ?thesis by blast
qed

text \<open>Position 3 of \<open>"ACDE"\<close> against \<open>"ACDF"\<close>, in chunks of two: a mismatch both ways.\<close>

theorem mismatch_invariant_under_chunking_witness:
  "(0::nat) < 2 \<and> length (str ''ACDE'') = length (str ''ACDF'') \<and> (3::nat) < length (str ''ACDE'')
   \<and> (\<exists>cs. chunks (str ''ACDE'') (str ''ACDF'') 2 = Some cs
     \<and> (3::nat) div 2 < length cs
     \<and> (3::nat) mod 2 < length (snd (cs ! (3 div 2)))
     \<and> (at_index (snd (cs ! (3 div 2))) (3 mod 2) \<noteq> at_index (fst (cs ! (3 div 2))) (3 mod 2))
         = spec_MismatchFlag (str ''ACDE'') (str ''ACDF'') 3
     \<and> seq2_backgroundColor (fst (cs ! (3 div 2))) (snd (cs ! (3 div 2))) (3 mod 2)
         = spec_colorForSeq2Char 3 (str ''ACDE'') (str ''ACDF''))
   \<and> spec_MismatchFlag (str ''ACDE'') (str ''ACDF'') 3
   \<and> \<not> spec_MismatchFlag (str ''ACDE'') (str ''ACDF'') 2"
  using mismatch_invariant_under_chunking [of 2 "str ''ACDE''" "str ''ACDF''" 3]
  by (simp add: str_def spec_MismatchFlag_def)

text \<open>
  C4. With the chunk size 0 and input that is not empty the loop never ends: the state
  that \<open>updateChunkSize\<close> computes from a container of width 0 is 0, and the partition of
  \<open>"A"\<close>, \<open>"A"\<close> with it does not return.
\<close>

theorem partition_zero_chunkSize_hangs:
  "updateChunkSize (Some 0) initial_chunkSize = 0
   \<and> chunks (str ''A'') (str ''A'') (updateChunkSize (Some 0) initial_chunkSize) = None"
  by (simp add: updateChunkSize_def measured_width_def newChunkSize_def setChunkSize_updater_def
      initial_chunkSize_def chunks_def chunks_loop_zero_step str_def)

text \<open>
  C10. When both strings are empty the loop returns the empty list of chunks for every
  chunk size, 0 included; the loop fails to return exactly when the chunk size is 0 and
  \<open>seq1\<close> is not empty.
\<close>

theorem partition_empty_input:
  "chunks [] [] chunkSize = Some []
   \<and> (chunks seq1 seq2 chunkSize = None) = (chunkSize = 0 \<and> seq1 \<noteq> [])"
proof -
  have "chunks [] [] chunkSize = Some []"
    by (simp add: chunks_def chunks_loop.simps)
  moreover have "(chunks seq1 seq2 chunkSize = None) = (chunkSize = 0 \<and> seq1 \<noteq> [])"
  proof (cases "chunkSize = 0")
    case False
    then show ?thesis by (simp add: chunks_starts)
  next
    case True
    show ?thesis
    proof (cases seq1)
      case Nil
      with True show ?thesis by (simp add: chunks_def chunks_loop.simps)
    next
      case (Cons x xs)
      with True show ?thesis by (simp add: chunks_def chunks_loop_zero_step)
    qed
  qed
  ultimately show ?thesis by simp
qed


subsection \<open>Chunk size\<close>

text \<open>
  C5. For every width \<open>w\<close> that the container reports, the state after \<open>updateChunkSize\<close>
  is \<open>\<lfloor>w / 19\<rfloor>\<close>, whatever the state was before; it is a function of the width alone,
  and it is 0 at width 0 and when there is no container.
\<close>

theorem chunkSize_is_floor:
  "updateChunkSize (Some w) prev = newChunkSize w
   \<and> int (newChunkSize w) = \<lfloor>real w / 19\<rfloor>
   \<and> newChunkSize 0 = 0
   \<and> updateChunkSize (Some 0) prev = 0
   \<and> updateChunkSize None prev = 0"
proof -
  have "int (w div 19) = \<lfloor>real w / real (19::nat)\<rfloor>"
    by (rule floor_div_nat)
  then have "int (newChunkSize w) = \<lfloor>real w / 19\<rfloor>"
    by (simp add: newChunkSize_def)
  then show ?thesis
    by (simp add: updateChunkSize_def measured_width_def newChunkSize_def setChunkSize_updater_def Let_def)
qed

subsection \<open>Colours\<close>

text \<open>
  C6. Each of the twenty letters A, R, N, D, C, E, Q, G, H, I, L, K, M, F, P, S, T, W, Y, V
  has its fixed hexadecimal colour in the lookup for the first row, and every other
  string, the gap symbol \<open>-\<close> among them, gets \<open>transparent\<close>.
\<close>

theorem color_lookup_total:
  "map (\<lambda>c. seq1_backgroundColor (str [c])) ''ARNDCEQGHILKMFPSTWYV'' =
     [''#67E4A6'', ''#BB99FF'', ''#80BFFF'', ''#FC9CAC'', ''#FFEA00'',
      ''#FC9CAC'', ''#80BFFF'', ''#C4C4C4'', ''#80BFFF'', ''#67E4A6'',
      ''#67E4A6'', ''#BB99FF'', ''#67E4A6'', ''#67E4A6'', ''#67E4A6'',
      ''#80BFFF'', ''#80BFFF'', ''#67E4A6'', ''#67E4A6'', ''#67E4A6'']
   \<and> (char \<notin> set (map (\<lambda>c. str [c]) ''ARNDCEQGHILKMFPSTWYV'') \<longrightarrow>
        seq1_backgroundColor char = ''transparent'')
   \<and> seq1_backgroundColor (str ''-'') = ''transparent''"
proof -
  have table: "map (\<lambda>c. seq1_backgroundColor (str [c])) ''ARNDCEQGHILKMFPSTWYV'' =
     [''#67E4A6'', ''#BB99FF'', ''#80BFFF'', ''#FC9CAC'', ''#FFEA00'',
      ''#FC9CAC'', ''#80BFFF'', ''#C4C4C4'', ''#80BFFF'', ''#67E4A6'',
      ''#67E4A6'', ''#BB99FF'', ''#67E4A6'', ''#67E4A6'', ''#67E4A6'',
      ''#80BFFF'', ''#80BFFF'', ''#67E4A6'', ''#67E4A6'', ''#67E4A6'']"
    by (simp add: seq1_backgroundColor_def COLOR_MAP_def str_def)
  have other: "seq1_backgroundColor char = ''transparent''"
    if "char \<notin> set (map (\<lambda>c. str [c]) ''ARNDCEQGHILKMFPSTWYV'')" for char
  proof -
    from that have "char \<notin> fst ` set COLOR_MAP" unfolding COLOR_MAP_keys .
    then have "map_of COLOR_MAP char = None" by (simp add: map_of_eq_None_iff)
    then show ?thesis by (simp add: seq1_backgroundColor_def)
  qed
  have gap: "seq1_backgroundColor (str ''-'') = ''transparent''"
    by (simp add: seq1_backgroundColor_def COLOR_MAP_def str_def)
  from table other gap show ?thesis by blast
qed

text \<open>
  The gap symbol and a lower-case letter are not keys; the two rows drawn for the chunk
  \<open>("ACDE", "ACDF")\<close>.
\<close>

theorem color_lookup_total_witness:
  "str ''-'' \<notin> set (map (\<lambda>c. str [c]) ''ARNDCEQGHILKMFPSTWYV'')
   \<and> seq1_backgroundColor (str ''-'') = ''transparent''
   \<and> str ''a'' \<notin> set (map (\<lambda>c. str [c]) ''ARNDCEQGHILKMFPSTWYV'')
   \<and> seq1_backgroundColor (str ''a'') = ''transparent''
   \<and> render_chunk (str ''ACDE'', str ''ACDF'') =
        ([''#67E4A6'', ''#FFEA00'', ''#FC9CAC'', ''#FC9CAC''],
         [''transparent'', ''transparent'', ''transparent'', ''#ffb6b6''])"
  using color_lookup_total [of "str ''-''"] color_lookup_total [of "str ''a''"]
  by (simp add: str_def render_chunk_def split_units_def seq1_backgroundColor_def COLOR_MAP_def
      seq2_backgroundColor_def at_index_def)

subsection \<open>Copying\<close>

text \<open>
  C7. As stated, for all line-break characters, the property fails: the handler removes
  the line feed only, and a selection with a carriage return is written with it.
\<close>

theorem copy_keeps_carriage_return:
  "spec_line_break 0x0D
   \<and> 0x0D \<in> set [0x41, 0x0D, 0x42 :: code_unit]
   \<and> handleMouseUp (Some [0x41, 0x0D, 0x42]) = [ClipboardWriteText [0x41, 0x0D, 0x42], OnCopy]"
  by (simp add: spec_line_break_def handleMouseUp_def replace_newlines_def newline_def)

text \<open>
  C7, amended to the line feed (the character the pattern \<open>/\n/g\<close> of the source
  matches). For every selection whose text is not empty once its line feeds are removed,
  the handler writes exactly that text, the selection without its line feeds and with
  everything else in place, and then calls \<open>onCopy\<close>; whatever the selection, nothing
  else is ever written, and nothing written contains a line feed; copying \<open>"AC\nDE"\<close>
  writes \<open>"ACDE"\<close>.
\<close>

theorem copy_strips_line_feeds:
  "(filter (\<lambda>c. c \<noteq> newline) sel \<noteq> [] \<longrightarrow>
       handleMouseUp (Some sel) = [ClipboardWriteText (filter (\<lambda>c. c \<noteq> newline) sel), OnCopy])
   \<and> (\<forall>written. ClipboardWriteText written \<in> set (handleMouseUp getSelection) \<longrightarrow>
          newline \<notin> set written
        \<and> (\<exists>sel. getSelection = Some sel \<and> written = filter (\<lambda>c. c \<noteq> newline) sel))
   \<and> handleMouseUp (Some (str (''AC'' @ [CHR 0x0A] @ ''DE''))) = [ClipboardWriteText (str ''ACDE''), OnCopy]"
proof -
  have live: "handleMouseUp (Some sel) = [ClipboardWriteText (filter (\<lambda>c. c \<noteq> newline) sel), OnCopy]"
    if "filter (\<lambda>c. c \<noteq> newline) sel \<noteq> []"
    using that by (simp add: handleMouseUp_def replace_newlines_def)
  have safe: "newline \<notin> set written \<and> (\<exists>sel. getSelection = Some sel \<and> written = filter (\<lambda>c. c \<noteq> newline) sel)"
    if "ClipboardWriteText written \<in> set (handleMouseUp getSelection)" for written
    using that
    by (cases getSelection) (auto simp: handleMouseUp_def replace_newlines_def split: if_splits)
  have ex: "handleMouseUp (Some (str (''AC'' @ [CHR 0x0A] @ ''DE''))) = [ClipboardWriteText (str ''ACDE''), OnCopy]"
    by (simp add: handleMouseUp_def replace_newlines_def newline_def str_def)
  from live safe ex show ?thesis by blast
qed

text \<open>
  The selection \<open>"AC\nDE"\<close>: its text without line feeds is not empty, it is what is
  written, and the write is one of those the second part speaks about.
\<close>

theorem copy_strips_line_feeds_witness:
  "filter (\<lambda>c. c \<noteq> newline) (str (''AC'' @ [CHR 0x0A] @ ''DE'')) \<noteq> []
   \<and> handleMouseUp (Some (str (''AC'' @ [CHR 0x0A] @ ''DE''))) =
       [ClipboardWriteText (filter (\<lambda>c. c \<noteq> newline) (str (''AC'' @ [CHR 0x0A] @ ''DE''))), OnCopy]
   \<and> ClipboardWriteText (str ''ACDE'') \<in> set (handleMouseUp (Some (str (''AC'' @ [CHR 0x0A] @ ''DE''))))
   \<and> newline \<notin> set (str ''ACDE'')
   \<and> str ''ACDE'' = filter (\<lambda>c. c \<noteq> newline) (str (''AC'' @ [CHR 0x0A] @ ''DE''))"
proof -
  let ?sel = "str (''AC'' @ [CHR 0x0A] @ ''DE'')"
  let ?stripped = "filter (\<lambda>c. c \<noteq> newline) ?sel"
  note inst = copy_strips_line_feeds [of ?sel "Some ?sel"]
  have nonempty: "?stripped \<noteq> []"
    by (simp add: newline_def str_def)
  from inst nonempty have live: "handleMouseUp (Some ?sel) = [ClipboardWriteText ?stripped, OnCopy]"
    by blast
  from inst have ex: "handleMouseUp (Some ?sel) = [ClipboardWriteText (str ''ACDE''), OnCopy]"
    by blast
  then have written: "ClipboardWriteText (str ''ACDE'') \<in> set (handleMouseUp (Some ?sel))"
    by (simp only: list.set insertI1)
  from inst have every: "\<forall>written. ClipboardWriteText written \<in> set (handleMouseUp (Some ?sel)) \<longrightarrow>
       newline \<notin> set written
     \<and> (\<exists>sel. Some ?sel = Some sel \<and> written = filter (\<lambda>c. c \<noteq> newline) sel)"
    by blast
  from every written have
    "newline \<notin> set (str ''ACDE'')
     \<and> (\<exists>sel. Some ?sel = Some sel \<and> str ''ACDE'' = filter (\<lambda>c. c \<noteq> newline) sel)"
    by blast
  then have "newline \<notin> set (str ''ACDE'') \<and> str ''ACDE'' = ?stripped"
    by (elim conjE exE) (simp only: option.inject, blast)
  with nonempty live written show ?thesis by blast
qed



end
